theory Spec2Isabelle
  imports Main "HOL-Library.Word" "HOL-Library.Sublist" "HOL-Library.AList"
begin

unbundle bit_operations_syntax

section \<open>Bytes, strings and the library calls the decoder relies on\<close>

text \<open>
  The embedding follows \<^verbatim>\<open>src/src/device_discovery.cpp\<close>. A datagram is a list
  of bytes; a pointer into it is an index, \<^verbatim>\<open>basePtr\<close> is index 0 and
  \<^verbatim>\<open>end\<close> is the length of the list. A \<^verbatim>\<open>std::string\<close> is a
  \<open>string\<close>, whose characters are bytes.
\<close>

type_synonym byte = "8 word"

definition char_of_byte :: "byte \<Rightarrow> char" where
  "char_of_byte b = char_of (unat b)"

definition byte_of_char :: "char \<Rightarrow> byte" where
  "byte_of_char c = of_char c"

text \<open>\<^verbatim>\<open>std::string::find(char, pos)\<close>; \<open>None\<close> is \<^verbatim>\<open>npos\<close>.\<close>

definition find_char :: "string \<Rightarrow> char \<Rightarrow> nat \<Rightarrow> nat option" where
  "find_char s c pos =
     (let n = length (takeWhile (\<lambda>x. x \<noteq> c) (drop pos s))
      in if pos + n < length s then Some (pos + n) else None)"

text \<open>\<^verbatim>\<open>std::string::substr(pos, n)\<close> and \<^verbatim>\<open>substr(pos)\<close>, for
  \<open>pos \<le> length s\<close> (the source never calls them otherwise).\<close>

definition substr :: "string \<Rightarrow> nat \<Rightarrow> nat \<Rightarrow> string" where
  "substr s pos n = take n (drop pos s)"

definition substr_from :: "string \<Rightarrow> nat \<Rightarrow> string" where
  "substr_from s pos = drop pos s"

text \<open>\<^verbatim>\<open>std::string::find(str)\<close>: the first position where \<open>pat\<close> occurs.\<close>

fun find_string :: "string \<Rightarrow> string \<Rightarrow> nat option" where
  "find_string [] pat = (if pat = [] then Some 0 else None)"
| "find_string (c # s) pat =
     (if prefix pat (c # s) then Some 0 else map_option Suc (find_string s pat))"

declare find_string.simps [simp del]

text \<open>\<^verbatim>\<open>std::find_if\<close> on a vector: the index of the first element that satisfies
  the predicate; \<open>None\<close> is \<^verbatim>\<open>end()\<close>.\<close>

fun find_if :: "('a \<Rightarrow> bool) \<Rightarrow> 'a list \<Rightarrow> nat option" where
  "find_if P [] = None"
| "find_if P (x # xs) = (if P x then Some 0 else map_option Suc (find_if P xs))"

text \<open>
  Byte order. \<open>store16 e x\<close> is the object representation of the \<^verbatim>\<open>uint16_t\<close>
  \<open>x\<close> in the memory of a host of byte order \<open>e\<close>, \<open>load16\<close> reads one back, and
  \<^verbatim>\<open>htons\<close>/\<^verbatim>\<open>ntohs\<close> swap the two bytes on a little-endian host only.
\<close>

datatype endian = LittleEndian | BigEndian

definition bswap16 :: "16 word \<Rightarrow> 16 word" where
  "bswap16 x = push_bit 8 x OR drop_bit 8 x"

definition htons :: "endian \<Rightarrow> 16 word \<Rightarrow> 16 word" where
  "htons e x = (case e of LittleEndian \<Rightarrow> bswap16 x | BigEndian \<Rightarrow> x)"

definition ntohs :: "endian \<Rightarrow> 16 word \<Rightarrow> 16 word" where
  "ntohs e x = (case e of LittleEndian \<Rightarrow> bswap16 x | BigEndian \<Rightarrow> x)"

definition be16 :: "byte \<Rightarrow> byte \<Rightarrow> 16 word" where
  "be16 b0 b1 = push_bit 8 (ucast b0) OR ucast b1"

definition store16 :: "endian \<Rightarrow> 16 word \<Rightarrow> byte list" where
  "store16 e x =
     (case e of LittleEndian \<Rightarrow> [ucast x, ucast (drop_bit 8 x)]
              | BigEndian \<Rightarrow> [ucast (drop_bit 8 x), ucast x])"

definition load16 :: "endian \<Rightarrow> byte \<Rightarrow> byte \<Rightarrow> 16 word" where
  "load16 e b0 b1 = (case e of LittleEndian \<Rightarrow> be16 b1 b0 | BigEndian \<Rightarrow> be16 b0 b1)"

text \<open>
  A read of the datagram at an index that is not below its length is a read outside the
  datagram. What the C++ does after such a read depends on memory that is not part of the
  input, so the model stops there with \<open>ReadPastEnd\<close>.
\<close>

datatype 'a outcome = Returned 'a | ReadPastEnd

section \<open>Name codec\<close>

subsection \<open>\<^verbatim>\<open>addDNSName\<close>\<close>

function addDNSName_loop :: "byte list \<Rightarrow> string \<Rightarrow> nat \<Rightarrow> byte list \<times> nat" where
  "addDNSName_loop packet name start =
     (case find_char name CHR ''.'' start of
        None \<Rightarrow> (packet, start)
      | Some e \<Rightarrow>
          (let label = substr name start (e - start)
           in addDNSName_loop
                (packet @ [of_nat (length label)] @ map byte_of_char label) name (e + 1)))"
  by pat_completeness auto
termination
  by (relation "measure (\<lambda>(packet, name, start). length name - start)")
     (auto simp: find_char_def Let_def split: if_splits)

declare addDNSName_loop.simps [simp del]

definition addDNSName :: "byte list \<Rightarrow> string \<Rightarrow> byte list" where
  "addDNSName packet name =
     (let (packet1, start) = addDNSName_loop packet name 0;
          label = substr_from name start;
          packet2 = (if label \<noteq> []
                     then packet1 @ [of_nat (length label)] @ map byte_of_char label
                     else packet1)
      in packet2 @ [0])"

subsection \<open>Names as lists of labels\<close>

text \<open>
  For stating what the codec does: \<open>labels_of\<close> splits a name at every dot,
  \<open>enc_label\<close> is one label on the wire, and \<open>join_acc first acc ls\<close> is the name the
  decoder holds after it has appended the labels \<open>ls\<close> to \<open>acc\<close>.
\<close>

primrec labels_of :: "string \<Rightarrow> string list" where
  "labels_of [] = [[]]"
| "labels_of (c # s) =
     (if c = CHR ''.'' then [] # labels_of s
      else (case labels_of s of [] \<Rightarrow> [[c]] | l # ls \<Rightarrow> (c # l) # ls))"

definition enc_label :: "string \<Rightarrow> byte list" where
  "enc_label l = of_nat (length l) # map byte_of_char l"


subsection \<open>\<^verbatim>\<open>parseDNSName\<close>\<close>

text \<open>
  The result is the returned \<^verbatim>\<open>bool\<close> with the two reference parameters the
  call leaves behind: the cursor \<^verbatim>\<open>ptr\<close> and \<^verbatim>\<open>name\<close>. The function is
  recursive through compression pointers with nothing that bounds the recursion, so
  it is a partial function: \<open>None\<close> is a call that does not return. The loop state
  is the cursor, \<^verbatim>\<open>first\<close> and the name collected so far; a call of
  \<^verbatim>\<open>parseDNSName\<close> starts the loop with \<^verbatim>\<open>first = true\<close> and the empty
  name. The second byte of a pointer is read with no comparison against
  \<^verbatim>\<open>end\<close>, which is where \<open>ReadPastEnd\<close> comes from. The test
  \<^verbatim>\<open>newPtr < basePtr\<close> is left out: the offset is unsigned and never below 0.
\<close>

type_synonym name_result = "bool \<times> nat \<times> string"

definition name_finish :: "nat \<Rightarrow> string \<Rightarrow> name_result outcome" where
  "name_finish ptr name = Returned (name \<noteq> [], ptr, name)"

definition add_dot :: "bool \<Rightarrow> string \<Rightarrow> string" where
  "add_dot first name = (if \<not> first then name @ ''.'' else name)"

fun join_acc :: "bool \<Rightarrow> string \<Rightarrow> string list \<Rightarrow> string" where
  "join_acc first acc [] = acc"
| "join_acc first acc (l # ls) = join_acc False (add_dot first acc @ l) ls"

definition ptr_offset :: "byte \<Rightarrow> byte \<Rightarrow> nat" where
  "ptr_offset len b =
     unat ((push_bit 8 (ucast (len AND 0x3F)) OR ucast b) :: 16 word)"

partial_function (option) parseDNSName_loop ::
  "byte list \<Rightarrow> nat \<Rightarrow> bool \<Rightarrow> string \<Rightarrow> name_result outcome option" where
  "parseDNSName_loop buf ptr first name =
     (if ptr < length buf then
        (let len = buf ! ptr; ptr1 = ptr + 1 in
         if len AND 0xC0 \<noteq> 0 then
           (if ptr1 < length buf then
              (let offset = ptr_offset len (buf ! ptr1) in
               if offset \<ge> length buf then Some (Returned (False, ptr1, name))
               else
                 Option.bind (parseDNSName_loop buf offset True [])
                   (\<lambda>r. case r of
                      ReadPastEnd \<Rightarrow> Some ReadPastEnd
                    | Returned (ok, tempPtr, remainingName) \<Rightarrow>
                        if \<not> ok then Some (Returned (False, ptr1, name))
                        else Some (Returned
                               (True, ptr1 + 1, add_dot first name @ remainingName))))
            else Some ReadPastEnd)
         else if len = 0 then Some (name_finish ptr1 name)
         else if ptr1 + unat len > length buf then Some (Returned (False, ptr1, name))
         else parseDNSName_loop buf (ptr1 + unat len) False
                (add_dot first name @ map char_of_byte (take (unat len) (drop ptr1 buf))))
      else Some (name_finish ptr name))"

declare parseDNSName_loop.simps [code]

definition parseDNSName :: "byte list \<Rightarrow> nat \<Rightarrow> name_result outcome option" where
  "parseDNSName buf ptr = parseDNSName_loop buf ptr True []"

subsection \<open>Where the label walk of a name ends\<close>

text \<open>
  These describe a buffer, for stating which buffers the decoder returns on; they are
  not part of the program. \<open>label_at buf ptr\<close> holds when the decoder, with its
  cursor at \<open>ptr\<close>, consumes a label there; \<open>label_walk buf s\<close> is the first
  position after \<open>s\<close> where it does not; \<open>pointer_target buf s\<close> is the offset the
  decoder recurses at when it starts at \<open>s\<close>, if it recurses.
\<close>

definition label_at :: "byte list \<Rightarrow> nat \<Rightarrow> bool" where
  "label_at buf ptr \<longleftrightarrow>
     ptr < length buf \<and> buf ! ptr AND 0xC0 = 0 \<and> buf ! ptr \<noteq> 0 \<and>
     ptr + 1 + unat (buf ! ptr) \<le> length buf"

function label_walk :: "byte list \<Rightarrow> nat \<Rightarrow> nat" where
  "label_walk buf ptr =
     (if label_at buf ptr then label_walk buf (ptr + 1 + unat (buf ! ptr)) else ptr)"
  by pat_completeness auto
termination
  by (relation "measure (\<lambda>(buf, ptr). length buf - ptr)") (auto simp: label_at_def)

declare label_walk.simps [simp del]





section \<open>Query builder: the message built by \<^verbatim>\<open>sendQuery\<close>\<close>

record DNSHeader =
  id :: "16 word"
  flags :: "16 word"
  qdcount :: "16 word"
  ancount :: "16 word"
  nscount :: "16 word"
  arcount :: "16 word"

text \<open>The twelve bytes of the struct, as \<^verbatim>\<open>(uint8_t*)&header\<close> reads them.\<close>

definition DNSHeader_bytes :: "endian \<Rightarrow> DNSHeader \<Rightarrow> byte list" where
  "DNSHeader_bytes e h =
     store16 e (id h) @ store16 e (flags h) @ store16 e (qdcount h) @
     store16 e (ancount h) @ store16 e (nscount h) @ store16 e (arcount h)"

text \<open>The vector \<^verbatim>\<open>query\<close> that \<^verbatim>\<open>sendQuery\<close> hands to \<^verbatim>\<open>sendto\<close>.\<close>

definition sendQuery_query :: "endian \<Rightarrow> string \<Rightarrow> byte list" where
  "sendQuery_query e serviceType =
     (let header0 = \<lparr>id = 0, flags = 0, qdcount = 0, ancount = 0, nscount = 0, arcount = 0\<rparr>;
          header = header0\<lparr>flags := htons e 0x0100, qdcount := htons e 1\<rparr>;
          query1 = addDNSName ([] @ DNSHeader_bytes e header) serviceType;
          type = htons e 12;
          qclass = htons e 1
      in query1 @ store16 e type @ store16 e qclass)"

section \<open>TXT decoder: \<^verbatim>\<open>parseTXT\<close>\<close>

text \<open>
  \<^verbatim>\<open>std::map<std::string, std::string>\<close> is an association list with one entry for
  each key; \<^verbatim>\<open>m[key] = value\<close> is \<open>AList.update\<close>, \<^verbatim>\<open>m.empty()\<close> is
  \<open>m = []\<close> and a lookup is \<open>map_of\<close>. The slice \<^verbatim>\<open>(ptr, length)\<close> the function
  receives is the list \<open>data\<close>; the cursor counts from its start and \<^verbatim>\<open>end\<close> is
  \<open>length data\<close>.
\<close>

type_synonym txt_map = "(string \<times> string) list"

function parseTXT_loop :: "byte list \<Rightarrow> nat \<Rightarrow> txt_map \<Rightarrow> txt_map" where
  "parseTXT_loop data ptr txtRecords =
     (if ptr < length data then
        (let len = data ! ptr; ptr1 = ptr + 1 in
         if ptr1 + unat len > length data then txtRecords
         else
           (let record = map char_of_byte (take (unat len) (drop ptr1 data));
                txtRecords1 =
                  (case find_char record CHR ''='' 0 of
                     Some sep \<Rightarrow>
                       (let key = substr record 0 sep;
                            val = substr_from record (sep + 1)
                        in AList.update key val txtRecords)
                   | None \<Rightarrow> txtRecords)
            in parseTXT_loop data (ptr1 + unat len) txtRecords1))
      else txtRecords)"
  by pat_completeness auto
termination
  by (relation "measure (\<lambda>(data, ptr, txtRecords). length data - ptr)") auto

declare parseTXT_loop.simps [simp del]

definition parseTXT :: "byte list \<Rightarrow> txt_map \<Rightarrow> txt_map" where
  "parseTXT data txtRecords = parseTXT_loop data 0 txtRecords"

subsection \<open>The decoder in the words of its description\<close>

text \<open>
  An entry is split at its first \<open>=\<close>; an entry with no \<open>=\<close> leaves the mapping as it
  is and any other entry stores its value under its key, over a value stored before.
  \<open>txt_encode\<close> is a sequence of entries on the wire, and \<open>incomplete_entry t\<close> holds
  of what can follow the last whole entry: nothing, or a length byte with fewer bytes
  behind it than it declares.
\<close>

definition split_first_eq :: "string \<Rightarrow> (string \<times> string) option" where
  "split_first_eq entry =
     (if CHR ''='' \<in> set entry
      then Some (takeWhile (\<lambda>c. c \<noteq> CHR ''='') entry,
                 tl (dropWhile (\<lambda>c. c \<noteq> CHR ''='') entry))
      else None)"

definition txt_apply :: "(string \<rightharpoonup> string) \<Rightarrow> string \<Rightarrow> (string \<rightharpoonup> string)" where
  "txt_apply m entry = (case split_first_eq entry of None \<Rightarrow> m | Some (k, v) \<Rightarrow> m(k \<mapsto> v))"

definition txt_encode :: "string list \<Rightarrow> byte list" where
  "txt_encode es = concat (map (\<lambda>e. of_nat (length e) # map byte_of_char e) es)"

definition incomplete_entry :: "byte list \<Rightarrow> bool" where
  "incomplete_entry t = (case t of [] \<Rightarrow> True | n # rest \<Rightarrow> length rest < unat n)"

text \<open>What one turn of the loop of \<^verbatim>\<open>parseTXT\<close> does with the entry \<open>e\<close>.\<close>

definition txt_step :: "string \<Rightarrow> txt_map \<Rightarrow> txt_map" where
  "txt_step e m =
     (case find_char e CHR ''='' 0 of
        Some sep \<Rightarrow> AList.update (substr e 0 sep) (substr_from e (sep + 1)) m
      | None \<Rightarrow> m)"

section \<open>Response parser\<close>

subsection \<open>\<^verbatim>\<open>parseRecordHeader\<close>\<close>

text \<open>
  On failure the call leaves only the cursor behind (\<open>RecordFailed ptr\<close>); on success it
  has set the name, the type, the data length and \<^verbatim>\<open>rdata\<close>, which is also the
  cursor.
\<close>

datatype record_result =
    RecordFailed nat
  | RecordHeader string "16 word" "16 word" nat

definition parseRecordHeader :: "byte list \<Rightarrow> nat \<Rightarrow> record_result outcome option" where
  "parseRecordHeader buf ptr =
     Option.bind (parseDNSName buf ptr)
       (\<lambda>r. case r of
          ReadPastEnd \<Rightarrow> Some ReadPastEnd
        | Returned (ok, ptr1, name) \<Rightarrow>
            if \<not> ok then Some (Returned (RecordFailed ptr1))
            else if ptr1 + 10 > length buf then Some (Returned (RecordFailed ptr1))
            else
              (let type = be16 (buf ! ptr1) (buf ! (ptr1 + 1));
                   rclass = be16 (buf ! (ptr1 + 2)) (buf ! (ptr1 + 3));
                   rdlength = be16 (buf ! (ptr1 + 8)) (buf ! (ptr1 + 9));
                   ptr2 = ptr1 + 10
               in if ptr2 + unat rdlength > length buf
                  then Some (Returned (RecordFailed ptr2))
                  else Some (Returned (RecordHeader name type rdlength ptr2))))"

subsection \<open>The device registry and \<^verbatim>\<open>parseMDNSResponse\<close>\<close>

record DeviceInfo =
  name :: string
  ip :: string
  txtRecords :: txt_map

text \<open>
  The members of \<^verbatim>\<open>DeviceDiscovery::Impl\<close>, followed by what the object has done to
  the world outside it: the sockets it asked for and closed, the datagrams it sent, the
  threads it started and the calls of the callback, in order. The member
  \<^verbatim>\<open>socket_\<close> is \<open>socket_fd\<close>, and \<open>receiveThread\<close> holds whether the thread
  object is joinable.
\<close>

record Impl =
  running :: bool
  socket_fd :: "int"
  receiveThread :: bool
  discoveredDevices :: "DeviceInfo list"
  sockets_created :: nat
  sockets_closed :: "int list"
  sent :: "byte list list"
  threads_started :: nat
  callback_calls :: "DeviceInfo list"

definition INVALID_SOCKET :: int where
  "INVALID_SOCKET = - 1"

definition target_service :: string where
  "target_service = ''_leboremote._tcp.local''"

text \<open>The loop that skips the questions; it returns the cursor.\<close>

fun skip_questions :: "byte list \<Rightarrow> nat \<Rightarrow> nat \<Rightarrow> nat outcome option" where
  "skip_questions buf 0 ptr = Some (Returned ptr)"
| "skip_questions buf (Suc n) ptr =
     Option.bind (parseDNSName buf ptr)
       (\<lambda>r. case r of
          ReadPastEnd \<Rightarrow> Some ReadPastEnd
        | Returned (ok, ptr1, qname) \<Rightarrow>
            skip_questions buf n (if ok then ptr1 + 4 else ptr1))"

text \<open>The loop over the answer records; it returns \<^verbatim>\<open>tempInfo\<close> and
  \<^verbatim>\<open>isTargetService\<close>.\<close>

fun parse_answers ::
  "byte list \<Rightarrow> nat \<Rightarrow> nat \<Rightarrow> DeviceInfo \<Rightarrow> bool \<Rightarrow> (DeviceInfo \<times> bool) outcome option" where
  "parse_answers buf 0 ptr tempInfo isTargetService =
     Some (Returned (tempInfo, isTargetService))"
| "parse_answers buf (Suc n) ptr tempInfo isTargetService =
     Option.bind (parseRecordHeader buf ptr)
       (\<lambda>r. case r of
          ReadPastEnd \<Rightarrow> Some ReadPastEnd
        | Returned (RecordFailed ptr1) \<Rightarrow>
            parse_answers buf n ptr1 tempInfo isTargetService
        | Returned (RecordHeader rname type rdlength rdata) \<Rightarrow>
            (let found = (find_string rname target_service \<noteq> None);
                 isTargetService1 = (if found then True else isTargetService);
                 tempInfo1 = (if found then tempInfo\<lparr>name := rname\<rparr> else tempInfo);
                 tempInfo2 =
                   (if type = 16 \<and> isTargetService1
                    then tempInfo1\<lparr>txtRecords :=
                           parseTXT (take (unat rdlength) (drop rdata buf))
                             (txtRecords tempInfo1)\<rparr>
                    else tempInfo1)
             in parse_answers buf n (rdata + unat rdlength) tempInfo2 isTargetService1))"

declare skip_questions.simps [simp del] parse_answers.simps [simp del]

text \<open>The block under \<^verbatim>\<open>devicesMutex\<close> at the end of
  \<^verbatim>\<open>parseMDNSResponse\<close>. A call of the callback is an entry appended to
  \<open>callback_calls\<close>.\<close>

definition reconcile :: "DeviceInfo \<Rightarrow> Impl \<Rightarrow> Impl" where
  "reconcile tempInfo s =
     (case find_if (\<lambda>d. name d = name tempInfo) (discoveredDevices s) of
        None \<Rightarrow>
          s\<lparr>discoveredDevices := discoveredDevices s @ [tempInfo],
            callback_calls := callback_calls s @ [tempInfo]\<rparr>
      | Some index \<Rightarrow>
          if txtRecords tempInfo \<noteq> []
          then
            (let it = (discoveredDevices s ! index)
                        \<lparr>txtRecords := txtRecords tempInfo, ip := ip tempInfo\<rparr>
             in s\<lparr>discoveredDevices := (discoveredDevices s)[index := it],
                  callback_calls := callback_calls s @ [it]\<rparr>)
          else s)"

text \<open>
  \<^verbatim>\<open>parseMDNSResponse\<close> for a datagram \<open>data\<close> of \<open>length data\<close> bytes from the
  address \<open>sender\<close>. The header fields are read through the struct and
  \<^verbatim>\<open>ntohs\<close>. The handler for \<^verbatim>\<open>std::exception\<close> is not modelled: nothing in
  the block throws unless memory runs out.
\<close>

definition parseMDNSResponse ::
  "endian \<Rightarrow> byte list \<Rightarrow> string \<Rightarrow> Impl \<Rightarrow> Impl outcome option" where
  "parseMDNSResponse e data sender s =
     (if length data < 12 then Some (Returned s)
      else
        (let flags = ntohs e (load16 e (data ! 2) (data ! 3));
             isResponse = (flags AND 0x8000 \<noteq> 0)
         in if \<not> isResponse then Some (Returned s)
            else
              (let qdcount = ntohs e (load16 e (data ! 4) (data ! 5));
                   ancount = ntohs e (load16 e (data ! 6) (data ! 7))
               in Option.bind (skip_questions data (unat qdcount) 12)
                    (\<lambda>q. case q of
                       ReadPastEnd \<Rightarrow> Some ReadPastEnd
                     | Returned ptr \<Rightarrow>
                         Option.bind
                           (parse_answers data (unat ancount) ptr
                              \<lparr>name = [], ip = sender, txtRecords = []\<rparr> False)
                           (\<lambda>a. case a of
                              ReadPastEnd \<Rightarrow> Some ReadPastEnd
                            | Returned (tempInfo, isTargetService) \<Rightarrow>
                                if name tempInfo \<noteq> [] \<and> isTargetService
                                then Some (Returned (reconcile tempInfo s))
                                else Some (Returned s))))))"

subsection \<open>The answer records in the order the loop decodes them\<close>








section \<open>Starting and stopping\<close>

text \<open>
  What the operating system answers to \<^verbatim>\<open>startDiscovery\<close>: the descriptor that
  \<^verbatim>\<open>socket\<close> returns and whether each later call succeeds.
\<close>

record syscalls =
  socket_result :: int
  reuseaddr_ok :: bool
  bind_ok :: bool
  add_membership_ok :: bool
  sendto_ok :: bool

definition closesocket :: "Impl \<Rightarrow> Impl" where
  "closesocket s = s\<lparr>sockets_closed := sockets_closed s @ [socket_fd s]\<rparr>"

definition sendQuery :: "endian \<Rightarrow> syscalls \<Rightarrow> string \<Rightarrow> Impl \<Rightarrow> bool \<times> Impl" where
  "sendQuery e os serviceType s =
     (let query = sendQuery_query e serviceType
      in if \<not> sendto_ok os then (False, s)
         else (True, s\<lparr>sent := sent s @ [query]\<rparr>))"

definition startDiscovery :: "endian \<Rightarrow> syscalls \<Rightarrow> string \<Rightarrow> Impl \<Rightarrow> bool \<times> Impl" where
  "startDiscovery e os serviceType s =
     (if running s then (False, s)
      else
        (let s1 = s\<lparr>socket_fd := socket_result os,
                     sockets_created :=
                       (if socket_result os = INVALID_SOCKET then sockets_created s
                        else sockets_created s + 1)\<rparr>
         in if socket_fd s1 = INVALID_SOCKET then (False, s1)
            else if \<not> reuseaddr_ok os then (False, closesocket s1)
            else if \<not> bind_ok os then (False, closesocket s1)
            else if \<not> add_membership_ok os then (False, closesocket s1)
            else
              (let (sent_ok, s2) = sendQuery e os serviceType s1
               in if \<not> sent_ok then (False, closesocket s2)
                  else (True, s2\<lparr>running := True, receiveThread := True,
                                  threads_started := threads_started s2 + 1\<rparr>))))"

definition stopDiscovery :: "Impl \<Rightarrow> Impl" where
  "stopDiscovery s =
     (if \<not> running s then s
      else
        (let s1 = s\<lparr>running := False\<rparr>;
             s2 = (if socket_fd s1 \<noteq> INVALID_SOCKET
                   then (closesocket s1)\<lparr>socket_fd := INVALID_SOCKET\<rparr>
                   else s1);
             s3 = (if receiveThread s2 then s2\<lparr>receiveThread := False\<rparr> else s2)
         in s3))"

section \<open>Concrete inputs\<close>

definition dev1 :: DeviceInfo where
  "dev1 = \<lparr>name = ''tv._leboremote._tcp.local'', ip = ''192.168.1.7'',
            txtRecords = [(''u'', ''abc'')]\<rparr>"

definition impl0 :: Impl where
  "impl0 = \<lparr>running = False, socket_fd = INVALID_SOCKET, receiveThread = False,
     discoveredDevices = [], sockets_created = 0, sockets_closed = [], sent = [],
     threads_started = 0, callback_calls = []\<rparr>"

text \<open>An object whose discovery is running and has found one device.\<close>

definition impl_running :: Impl where
  "impl_running = \<lparr>running = True, socket_fd = 3, receiveThread = True,
     discoveredDevices = [dev1], sockets_created = 1, sockets_closed = [], sent = [],
     threads_started = 1, callback_calls = [dev1]\<rparr>"

definition os_ok :: syscalls where
  "os_ok = \<lparr>socket_result = 4, reuseaddr_ok = True, bind_ok = True,
     add_membership_ok = True, sendto_ok = True\<rparr>"



text \<open>A response header announcing one answer, followed by the single byte \<open>0xC0\<close>.\<close>

definition dg_cut_pointer :: "byte list" where
  "dg_cut_pointer = [0, 0, 0x84, 0, 0, 0, 0, 1, 0, 0, 0, 0, 0xC0]"

text \<open>A length byte \<open>0x40\<close>, whose top two bits are \<open>01\<close>, before the name \<open>a\<close>.\<close>

definition buf_0x40 :: "byte list" where
  "buf_0x40 = [0x40, 2, 1, 0x61, 0]"






text \<open>Four TXT entries: a key set twice, an entry with no \<open>=\<close> and an empty value.\<close>

definition txt_entries4 :: "string list" where
  "txt_entries4 = [''u=abc'', ''novalue'', ''u=x'', ''k='']"

section \<open>Byte order\<close>


lemma ntohs_load16: "ntohs e (load16 e b0 b1) = be16 b0 b1"
proof (cases e)
  case LittleEndian
  have "bswap16 (be16 b1 b0) = be16 b0 b1"
    unfolding bswap16_def be16_def
    by (rule bit_word_eqI) (auto simp: bit_simps dest: bit_imp_le_length)
  then show ?thesis using LittleEndian by (simp add: ntohs_def load16_def)
next
  case BigEndian
  then show ?thesis by (simp add: ntohs_def load16_def)
qed

section \<open>Name decoding\<close>

text \<open>One equation for each way through the body of \<^verbatim>\<open>parseDNSName\<close>.\<close>

lemma parseDNSName_loop_end:
  "\<not> ptr < length buf \<Longrightarrow> parseDNSName_loop buf ptr first nm = Some (name_finish ptr nm)"
  by (subst parseDNSName_loop.simps) simp

lemma parseDNSName_loop_zero:
  "ptr < length buf \<Longrightarrow> buf ! ptr = 0 \<Longrightarrow>
   parseDNSName_loop buf ptr first nm = Some (name_finish (ptr + 1) nm)"
  by (subst parseDNSName_loop.simps) simp

lemma parseDNSName_loop_label:
  "ptr < length buf \<Longrightarrow> buf ! ptr AND 0xC0 = 0 \<Longrightarrow> buf ! ptr \<noteq> 0 \<Longrightarrow>
   ptr + 1 + unat (buf ! ptr) \<le> length buf \<Longrightarrow>
   parseDNSName_loop buf ptr first nm =
     parseDNSName_loop buf (ptr + 1 + unat (buf ! ptr)) False
       (add_dot first nm @ map char_of_byte (take (unat (buf ! ptr)) (drop (ptr + 1) buf)))"
  by (subst parseDNSName_loop.simps) (simp add: Let_def)

lemma parseDNSName_loop_label_long:
  "ptr < length buf \<Longrightarrow> buf ! ptr AND 0xC0 = 0 \<Longrightarrow> buf ! ptr \<noteq> 0 \<Longrightarrow>
   length buf < ptr + 1 + unat (buf ! ptr) \<Longrightarrow>
   parseDNSName_loop buf ptr first nm = Some (Returned (False, ptr + 1, nm))"
  by (subst parseDNSName_loop.simps) (simp add: Let_def)

lemma parseDNSName_loop_ptr_past_end:
  "ptr < length buf \<Longrightarrow> buf ! ptr AND 0xC0 \<noteq> 0 \<Longrightarrow> \<not> ptr + 1 < length buf \<Longrightarrow>
   parseDNSName_loop buf ptr first nm = Some ReadPastEnd"
  by (subst parseDNSName_loop.simps) (simp add: Let_def)

lemma parseDNSName_loop_ptr_invalid:
  "ptr < length buf \<Longrightarrow> buf ! ptr AND 0xC0 \<noteq> 0 \<Longrightarrow> ptr + 1 < length buf \<Longrightarrow>
   length buf \<le> ptr_offset (buf ! ptr) (buf ! (ptr + 1)) \<Longrightarrow>
   parseDNSName_loop buf ptr first nm = Some (Returned (False, ptr + 1, nm))"
  by (subst parseDNSName_loop.simps) (simp add: Let_def)

lemma parseDNSName_loop_ptr:
  assumes "ptr < length buf" "buf ! ptr AND 0xC0 \<noteq> 0" "ptr + 1 < length buf"
    and "ptr_offset (buf ! ptr) (buf ! (ptr + 1)) < length buf"
  shows "parseDNSName_loop buf ptr first nm =
     Option.bind (parseDNSName_loop buf (ptr_offset (buf ! ptr) (buf ! (ptr + 1))) True [])
       (\<lambda>r. case r of
          ReadPastEnd \<Rightarrow> Some ReadPastEnd
        | Returned (ok, tempPtr, remainingName) \<Rightarrow>
            if \<not> ok then Some (Returned (False, ptr + 1, nm))
            else Some (Returned (True, ptr + 1 + 1, add_dot first nm @ remainingName)))"
proof -
  have n: "\<not> length buf \<le> ptr_offset (buf ! ptr) (buf ! (ptr + 1))"
    using assms(4) by simp
  show ?thesis
    by (subst parseDNSName_loop.simps) (simp only: Let_def assms n if_True if_False not_False_eq_True)
qed

lemmas parseDNSName_loop_cases =
  parseDNSName_loop_end parseDNSName_loop_zero parseDNSName_loop_label
  parseDNSName_loop_label_long parseDNSName_loop_ptr_past_end
  parseDNSName_loop_ptr_invalid parseDNSName_loop_ptr

lemmas name_eval =
  parseDNSName_def parseDNSName_loop_cases name_finish_def add_dot_def char_of_byte_def
  char_of_eq_iff ptr_offset_def

lemma label_walk_step:
  "label_at buf ptr \<Longrightarrow> label_walk buf ptr = label_walk buf (ptr + 1 + unat (buf ! ptr))"
  by (subst label_walk.simps) simp

lemma label_walk_stay: "\<not> label_at buf ptr \<Longrightarrow> label_walk buf ptr = ptr"
  by (subst label_walk.simps) simp


lemma label_walk_ge: "s \<le> label_walk buf s"
proof (induction buf s rule: label_walk.induct)
  case (1 buf ptr)
  show ?case
  proof (cases "label_at buf ptr")
    case True
    with "1.IH" show ?thesis by (simp add: label_walk_step)
  next
    case False
    then show ?thesis by (simp add: label_walk_stay)
  qed
qed
















text \<open>
  Claim C8, evaluated on the code. The length byte \<open>0x40\<close> has only one of its top
  two bits set; the test \<^verbatim>\<open>len & 0xC0\<close> takes it for a compression pointer to offset
  2 and the call succeeds with the name found there and the cursor two bytes on.
\<close>

theorem C8_one_top_bit_is_a_pointer:
  "parseDNSName buf_0x40 0 = Some (Returned (True, 2, ''a''))"
  by (simp add: buf_0x40_def name_eval)




section \<open>The TXT decoder\<close>

lemmas txt_eval =
  parseTXT_def parseTXT_loop.simps find_char_def substr_def substr_from_def
  char_of_byte_def char_of_eq_iff Let_def

lemma char_of_byte_of_char: "char_of_byte (byte_of_char c) = c"
proof -
  have "(of_char c :: byte) = of_nat (of_char c)"
    by (simp add: of_nat_of_char)
  then have "unat (of_char c :: byte) = of_char c"
    by (simp add: unat_of_nat)
  then show ?thesis by (simp add: char_of_byte_def byte_of_char_def)
qed

lemma map_char_of_byte: "map char_of_byte (map byte_of_char s) = s"
  by (induction s) (simp_all add: char_of_byte_of_char)

lemma unat_length_byte: "n \<le> 255 \<Longrightarrow> unat (of_nat n :: byte) = n"
  by (simp add: unat_of_nat)

lemma find_char_0:
  "find_char s c 0 = (if c \<in> set s then Some (length (takeWhile (\<lambda>x. x \<noteq> c) s)) else None)"
proof (cases "c \<in> set s")
  case True
  then have "length (takeWhile (\<lambda>x. x \<noteq> c) s) < length s"
    by (induction s) auto
  with True show ?thesis by (simp add: find_char_def Let_def)
next
  case False
  then have "length (takeWhile (\<lambda>x. x \<noteq> c) s) = length s" by (induction s) auto
  with False show ?thesis by (simp add: find_char_def Let_def)
qed

lemma map_of_txt_step: "map_of (txt_step e m) = txt_apply (map_of m) e"
proof (cases "CHR ''='' \<in> set e")
  case True
  have t: "take (length (takeWhile (\<lambda>x. x \<noteq> CHR ''='') e)) e = takeWhile (\<lambda>x. x \<noteq> CHR ''='') e"
    by (simp add: takeWhile_eq_take [symmetric])
  have d: "drop (Suc (length (takeWhile (\<lambda>x. x \<noteq> CHR ''='') e))) e =
      tl (dropWhile (\<lambda>x. x \<noteq> CHR ''='') e)"
    by (simp add: dropWhile_eq_drop drop_Suc tl_drop)
  show ?thesis
    using True
    by (simp add: txt_step_def txt_apply_def split_first_eq_def find_char_0 substr_def
          substr_from_def t d update_conv')
next
  case False
  then show ?thesis
    by (simp add: txt_step_def txt_apply_def split_first_eq_def find_char_0)
qed

lemma parseTXT_loop_entry:
  assumes "length e \<le> 255"
  shows "parseTXT_loop (pre @ (of_nat (length e) # map byte_of_char e) @ rest) (length pre) m =
     parseTXT_loop (pre @ (of_nat (length e) # map byte_of_char e) @ rest)
       (length pre + 1 + length e) (txt_step e m)"
proof -
  let ?data = "pre @ (of_nat (length e) # map byte_of_char e) @ rest"
  have l: "?data ! length pre = of_nat (length e)" by simp
  have u: "unat (of_nat (length e) :: byte) = length e"
    using assms by (rule unat_length_byte)
  have tk: "take (length e) (drop (length pre + 1) ?data) = map byte_of_char e" by simp
  show ?thesis
    apply (subst parseTXT_loop.simps)
    apply (simp only: Let_def l u tk map_char_of_byte)
    apply (simp add: txt_step_def)
    done
qed

lemma parseTXT_loop_incomplete:
  "incomplete_entry t \<Longrightarrow> parseTXT_loop (pre @ t) (length pre) m = m"
  by (cases t) (simp_all add: incomplete_entry_def parseTXT_loop.simps [of _ "length pre"])

lemma parseTXT_loop_entries:
  assumes "\<forall>e \<in> set es. length e \<le> 255" "incomplete_entry t"
  shows "map_of (parseTXT_loop (pre @ txt_encode es @ t) (length pre) m) =
     foldl txt_apply (map_of m) es"
  using assms(1)
proof (induction es arbitrary: pre m)
  case Nil
  with assms(2) show ?case by (simp add: txt_encode_def parseTXT_loop_incomplete)
next
  case (Cons e es)
  let ?hd = "of_nat (length e) # map byte_of_char e"
  have "parseTXT_loop (pre @ txt_encode (e # es) @ t) (length pre) m =
      parseTXT_loop (pre @ ?hd @ (txt_encode es @ t)) (length pre) m"
    by (simp add: txt_encode_def)
  also have "\<dots> = parseTXT_loop (pre @ ?hd @ (txt_encode es @ t))
       (length pre + 1 + length e) (txt_step e m)"
    using Cons.prems by (intro parseTXT_loop_entry) simp
  also have "\<dots> = parseTXT_loop ((pre @ ?hd) @ txt_encode es @ t) (length (pre @ ?hd))
       (txt_step e m)"
    by simp
  finally have "map_of (parseTXT_loop (pre @ txt_encode (e # es) @ t) (length pre) m) =
      foldl txt_apply (map_of (txt_step e m)) es"
    using Cons.IH [of "pre @ ?hd" "txt_step e m"] Cons.prems by simp
  then show ?case by (simp add: map_of_txt_step)
qed

lemma txt_encode_entries4: "txt_encode txt_entries4 =
   [5, 0x75, 0x3D, 0x61, 0x62, 0x63, 7, 0x6E, 0x6F, 0x76, 0x61, 0x6C, 0x75, 0x65,
    3, 0x75, 0x3D, 0x78, 2, 0x6B, 0x3D]"
  by (simp add: txt_encode_def txt_entries4_def byte_of_char_def)

lemma byte_of_char_of_byte: "byte_of_char (char_of_byte b) = b"
proof -
  have "(of_char (char_of (unat b)) :: byte) = of_nat (of_char (char_of (unat b)))"
    by (simp only: of_nat_of_char)
  also have "\<dots> = of_nat (unat b mod 256)" by (simp only: of_char_of)
  also have "\<dots> = b"
    using unsigned_less [of b, where ?'a = nat] by simp
  finally show ?thesis by (simp add: char_of_byte_def byte_of_char_def)
qed

lemma map_byte_of_char: "map byte_of_char (map char_of_byte bs) = bs"
  by (induction bs) (simp_all add: byte_of_char_of_byte)

text \<open>Every payload is a sequence of whole entries followed by an incomplete one or by
  nothing.\<close>

lemma txt_payload_form:
  "\<exists>es t. data = txt_encode es @ t \<and> (\<forall>e \<in> set es. length e \<le> 255) \<and> incomplete_entry t"
proof (induction data rule: length_induct)
  case (1 data)
  show ?case
  proof (cases data)
    case Nil
    have "data = txt_encode [] @ []" by (simp add: Nil txt_encode_def)
    moreover have "incomplete_entry []" by (simp add: incomplete_entry_def)
    ultimately show ?thesis by fastforce
  next
    case (Cons n rest)
    show ?thesis
    proof (cases "length rest < unat n")
      case True
      have "data = txt_encode [] @ data" by (simp add: txt_encode_def)
      moreover have "incomplete_entry data"
        using True by (simp add: Cons incomplete_entry_def)
      ultimately show ?thesis by fastforce
    next
      case False
      define e where "e = map char_of_byte (take (unat n) rest)"
      have le: "length e = unat n" using False by (simp add: e_def)
      have "length (drop (unat n) rest) < length data" by (simp add: Cons)
      with 1 obtain es t where
        d: "drop (unat n) rest = txt_encode es @ t" and
        b: "\<forall>e \<in> set es. length e \<le> 255" and i: "incomplete_entry t"
        by blast
      have "unat n \<le> 255" using unsigned_less [of n, where ?'a = nat] by simp
      then have b': "\<forall>x \<in> set (e # es). length x \<le> 255" using b le by simp
      have "data = n # take (unat n) rest @ drop (unat n) rest" by (simp add: Cons)
      also have "\<dots> = txt_encode (e # es) @ t"
      proof -
        have "(of_nat (length e) :: byte) = n" by (simp add: le)
        moreover have "map byte_of_char e = take (unat n) rest"
          by (simp only: e_def map_byte_of_char)
        ultimately have "txt_encode (e # es) = n # take (unat n) rest @ txt_encode es"
          by (simp add: txt_encode_def)
        then show ?thesis by (simp add: d)
      qed
      finally show ?thesis using b' i by blast
    qed
  qed
qed

text \<open>
  Claim C7. A payload made of whole entries \<open>es\<close>, followed by nothing or by an entry
  whose length byte declares more bytes than are left, decodes to the mapping obtained
  by going through \<open>es\<close> in order: an entry with no \<open>=\<close> is skipped, any other is
  split at its first \<open>=\<close> and stored under its key, a later entry replacing an earlier
  one with the same key. The incomplete entry and anything behind it contribute
  nothing, and what was decoded before is kept.
\<close>

theorem C7_parseTXT_entries:
  "\<forall>e \<in> set es. length e \<le> 255 \<Longrightarrow> incomplete_entry t \<Longrightarrow>
   map_of (parseTXT (txt_encode es @ t) m) = foldl txt_apply (map_of m) es"
  using parseTXT_loop_entries [of es t "[]" m] by (simp add: parseTXT_def)

theorem C7_parseTXT_entries_witness:
  "incomplete_entry [5, 0x61] \<and>
   map_of (parseTXT (txt_encode txt_entries4 @ [5, 0x61]) []) =
     foldl txt_apply Map.empty txt_entries4 \<and>
   parseTXT (txt_encode txt_entries4 @ [5, 0x61]) [] = [(''u'', ''x''), (''k'', [])]"
proof -
  have h1: "\<forall>e \<in> set txt_entries4. length e \<le> 255"
    by (simp add: txt_entries4_def)
  have h2: "incomplete_entry [5, 0x61]"
    by (simp add: incomplete_entry_def)
  have v: "parseTXT (txt_encode txt_entries4 @ [5, 0x61]) [] = [(''u'', ''x''), (''k'', [])]"
    unfolding txt_encode_entries4 by (simp add: txt_eval)
  show ?thesis
    using h2 v C7_parseTXT_entries [OF h1 h2, of "[]"] by simp
qed

section \<open>Encoding a name and decoding it again\<close>

lemma length_byte_no_pointer:
  assumes "n \<le> 63"
  shows "(of_nat n :: byte) AND 0xC0 = 0"
proof -
  have "(of_nat n :: byte) < 64"
    using assms by (simp add: word_less_nat_alt unat_of_nat)
  then have "(of_nat n :: byte) AND mask 6 = of_nat n"
    by (simp add: less_mask_eq)
  moreover have c: "\<not> bit (0xC0 :: byte) k" if "k < 6" for k
  proof -
    from that have "k = 0 \<or> k = 1 \<or> k = 2 \<or> k = 3 \<or> k = 4 \<or> k = 5" by arith
    then show ?thesis by (elim disjE) simp_all
  qed
  have "(x AND mask 6) AND 0xC0 = 0" for x :: byte
  proof (rule bit_word_eqI)
    fix k
    show "bit ((x AND mask 6) AND 0xC0) k \<longleftrightarrow> bit (0 :: byte) k"
      using c [of k] by (auto simp: bit_simps)
  qed
  ultimately show ?thesis by metis
qed

lemma length_byte_nonzero:
  assumes "1 \<le> n" "n \<le> 63"
  shows "(of_nat n :: byte) \<noteq> 0"
proof
  assume "(of_nat n :: byte) = 0"
  then have "unat (of_nat n :: byte) = 0" by simp
  with assms show False by (simp add: unat_of_nat)
qed

lemma labels_of_nonempty: "labels_of s \<noteq> []"
  by (induction s) (auto split: list.splits)

lemma labels_of_no_dot: "CHR ''.'' \<notin> set a \<Longrightarrow> labels_of a = [a]"
  by (induction a) auto

lemma labels_of_dot:
  "CHR ''.'' \<notin> set a \<Longrightarrow> labels_of (a @ CHR ''.'' # b) = a # labels_of b"
  by (induction a) auto

lemma labels_of_join:
  "s = hd (labels_of s) @ concat (map ((#) CHR ''.'') (tl (labels_of s)))"
proof (induction s)
  case Nil
  show ?case by simp
next
  case (Cons c s)
  obtain l ls where ls: "labels_of s = l # ls"
    using labels_of_nonempty [of s] by (cases "labels_of s") auto
  with Cons.IH have s: "s = l @ concat (map ((#) CHR ''.'') ls)" by simp
  show ?case
  proof (cases "c = CHR ''.''")
    case True
    then have "labels_of (c # s) = [] # l # ls" by (simp add: ls)
    then have "hd (labels_of (c # s)) @ concat (map ((#) CHR ''.'') (tl (labels_of (c # s)))) =
        CHR ''.'' # l @ concat (map ((#) CHR ''.'') ls)"
      by simp
    with True s show ?thesis by simp
  next
    case False
    then have "labels_of (c # s) = (c # l) # ls" by (simp add: ls)
    then have "hd (labels_of (c # s)) @ concat (map ((#) CHR ''.'') (tl (labels_of (c # s)))) =
        c # l @ concat (map ((#) CHR ''.'') ls)"
      by simp
    with s show ?thesis by simp
  qed
qed

lemma takeWhile_shorter:
  "c \<in> set xs \<Longrightarrow> length (takeWhile (\<lambda>x. x \<noteq> c) xs) < length xs"
  by (induction xs) auto

lemma takeWhile_whole:
  "c \<notin> set xs \<Longrightarrow> length (takeWhile (\<lambda>x. x \<noteq> c) xs) = length xs"
  by (induction xs) auto

lemma find_char_drop:
  "find_char s c pos =
     (if c \<in> set (drop pos s)
      then Some (pos + length (takeWhile (\<lambda>x. x \<noteq> c) (drop pos s)))
      else None)"
proof (cases "c \<in> set (drop pos s)")
  case True
  then have "length (takeWhile (\<lambda>x. x \<noteq> c) (drop pos s)) < length (drop pos s)"
    by (rule takeWhile_shorter)
  with True show ?thesis by (auto simp: find_char_def Let_def)
next
  case False
  then have "length (takeWhile (\<lambda>x. x \<noteq> c) (drop pos s)) = length (drop pos s)"
    by (rule takeWhile_whole)
  with False show ?thesis by (auto simp: find_char_def Let_def)
qed

lemma split_at_dot:
  assumes "CHR ''.'' \<in> set r"
  shows "r = takeWhile (\<lambda>x. x \<noteq> CHR ''.'') r @ CHR ''.'' #
               drop (Suc (length (takeWhile (\<lambda>x. x \<noteq> CHR ''.'') r))) r"
proof -
  have "dropWhile (\<lambda>x. x \<noteq> CHR ''.'') r \<noteq> []"
    using assms by simp
  moreover have "hd (dropWhile (\<lambda>x. x \<noteq> CHR ''.'') r) = CHR ''.''"
    using assms hd_dropWhile [of "\<lambda>x. x \<noteq> CHR ''.''" r] by auto
  ultimately have "dropWhile (\<lambda>x. x \<noteq> CHR ''.'') r =
      CHR ''.'' # tl (dropWhile (\<lambda>x. x \<noteq> CHR ''.'') r)"
    by (cases "dropWhile (\<lambda>x. x \<noteq> CHR ''.'') r") auto
  moreover have "tl (dropWhile (\<lambda>x. x \<noteq> CHR ''.'') r) =
      drop (Suc (length (takeWhile (\<lambda>x. x \<noteq> CHR ''.'') r))) r"
    by (simp add: dropWhile_eq_drop drop_Suc tl_drop)
  ultimately show ?thesis
    using takeWhile_dropWhile_id [of "\<lambda>x. x \<noteq> CHR ''.''" r] by metis
qed

lemma addDNSName_loop_labels:
  "start \<le> length nm \<Longrightarrow>
   fst (addDNSName_loop packet nm start) =
     packet @ concat (map enc_label (butlast (labels_of (drop start nm)))) \<and>
   drop (snd (addDNSName_loop packet nm start)) nm = last (labels_of (drop start nm))"
proof (induction packet nm start rule: addDNSName_loop.induct)
  case (1 packet nm start)
  show ?case
  proof (cases "CHR ''.'' \<in> set (drop start nm)")
    case False
    then have "find_char nm CHR ''.'' start = None" by (simp add: find_char_drop)
    with False show ?thesis
      by (simp add: addDNSName_loop.simps [of packet] labels_of_no_dot)
  next
    case True
    define a where "a = takeWhile (\<lambda>x. x \<noteq> CHR ''.'') (drop start nm)"
    define e where "e = start + length a"
    define rest where "rest = drop (e + 1) nm"
    define packet1 where "packet1 = packet @ [of_nat (length a)] @ map byte_of_char a"
    have f: "find_char nm CHR ''.'' start = Some e"
      using True by (simp add: find_char_drop e_def a_def)
    have "drop start nm = a @ CHR ''.'' # drop (Suc (length a)) (drop start nm)"
      unfolding a_def using True by (rule split_at_dot)
    moreover have "drop (Suc (length a)) (drop start nm) = rest"
      by (simp add: rest_def e_def add.commute)
    ultimately have r: "drop start nm = a @ CHR ''.'' # rest" by simp
    have nd: "CHR ''.'' \<notin> set a"
      unfolding a_def by (auto dest: set_takeWhileD)
    have ls: "labels_of (drop start nm) = a # labels_of rest"
      unfolding r using nd by (rule labels_of_dot)
    have sub: "substr nm start (e - start) = a"
      by (simp add: substr_def e_def a_def takeWhile_eq_take [symmetric])
    have le: "e + 1 \<le> length nm"
      using f by (auto simp: find_char_def Let_def split: if_splits)
    have step: "addDNSName_loop packet nm start = addDNSName_loop packet1 nm (e + 1)"
      by (subst addDNSName_loop.simps) (simp only: f sub option.case Let_def packet1_def)
    have ih: "fst (addDNSName_loop packet1 nm (e + 1)) =
        packet1 @ concat (map enc_label (butlast (labels_of rest))) \<and>
        drop (snd (addDNSName_loop packet1 nm (e + 1))) nm = last (labels_of rest)"
      unfolding packet1_def rest_def
      using "1.IH" [OF f sub [symmetric] le] by (simp only: sub)
    have ne: "labels_of rest \<noteq> []" by (rule labels_of_nonempty)
    have el: "enc_label a = of_nat (length a) # map byte_of_char a"
      by (simp add: enc_label_def)
    show ?thesis
      unfolding step ls using ih ne by (simp add: packet1_def el)
  qed
qed

lemma addDNSName_labels:
  assumes "\<forall>l \<in> set (labels_of nm). l \<noteq> []"
  shows "addDNSName packet nm = packet @ concat (map enc_label (labels_of nm)) @ [0]"
proof -
  define ls where "ls = labels_of nm"
  obtain p1 st where l: "addDNSName_loop packet nm 0 = (p1, st)"
    by (cases "addDNSName_loop packet nm 0")
  with addDNSName_loop_labels [of 0 nm packet]
  have p1: "p1 = packet @ concat (map enc_label (butlast ls))"
    and st: "drop st nm = last ls"
    by (simp_all add: ls_def)
  have lne: "ls \<noteq> []" unfolding ls_def by (rule labels_of_nonempty)
  then have "last ls \<in> set ls" by simp
  with assms have ne: "last ls \<noteq> []" unfolding ls_def by blast
  have bl: "butlast ls @ [last ls] = ls" using lne by simp
  have "concat (map enc_label ls) = concat (map enc_label (butlast ls @ [last ls]))"
    by (simp only: bl)
  also have "\<dots> = concat (map enc_label (butlast ls)) @ enc_label (last ls)"
    by simp
  finally have cc: "concat (map enc_label ls) =
      concat (map enc_label (butlast ls)) @ enc_label (last ls)" .
  have el: "enc_label (last ls) = of_nat (length (last ls)) # map byte_of_char (last ls)"
    by (simp add: enc_label_def)
  have "addDNSName packet nm =
      (p1 @ [of_nat (length (last ls))] @ map byte_of_char (last ls)) @ [0]"
  proof -
    have "drop st nm \<noteq> []" using st ne by simp
    then have "\<not> length nm \<le> st" by simp
    then show ?thesis by (simp add: addDNSName_def l substr_from_def st Let_def)
  qed
  also have "\<dots> = packet @ concat (map enc_label ls) @ [0]"
    by (simp add: p1 cc el)
  finally show ?thesis by (simp only: ls_def)
qed

lemma join_acc_False: "join_acc False acc ls = acc @ concat (map ((#) CHR ''.'') ls)"
  by (induction ls arbitrary: acc) (simp_all add: add_dot_def)

lemma join_acc_labels:
  "ls \<noteq> [] \<Longrightarrow> join_acc True [] ls = hd ls @ concat (map ((#) CHR ''.'') (tl ls))"
  by (cases ls) (simp_all add: join_acc_False add_dot_def)

lemma parseDNSName_loop_labels:
  assumes "\<forall>l \<in> set ls. 1 \<le> length l \<and> length l \<le> 63"
  shows "parseDNSName_loop (pre @ concat (map enc_label ls) @ 0 # suf) (length pre) first acc =
     Some (name_finish (length pre + length (concat (map enc_label ls)) + 1)
             (join_acc first acc ls))"
  using assms
proof (induction ls arbitrary: pre first acc)
  case Nil
  show ?case by (simp add: parseDNSName_loop_zero)
next
  case (Cons l ls)
  let ?buf = "pre @ concat (map enc_label (l # ls)) @ 0 # suf"
  have n: "1 \<le> length l" "length l \<le> 63" using Cons.prems by simp_all
  have el: "enc_label l = of_nat (length l) # map byte_of_char l"
    by (simp add: enc_label_def)
  have b: "?buf ! length pre = of_nat (length l)" by (simp add: el)
  have u: "unat (of_nat (length l) :: byte) = length l"
    using n by (simp add: unat_of_nat)
  have tk: "take (length l) (drop (length pre + 1) ?buf) = map byte_of_char l"
    by (simp add: el)
  have "parseDNSName_loop ?buf (length pre) first acc =
      parseDNSName_loop ?buf (length pre + 1 + unat (?buf ! length pre)) False
        (add_dot first acc @
         map char_of_byte (take (unat (?buf ! length pre)) (drop (length pre + 1) ?buf)))"
    using n by (intro parseDNSName_loop_label)
      (simp_all add: b u length_byte_no_pointer length_byte_nonzero el)
  also have "\<dots> = parseDNSName_loop ?buf (length pre + 1 + length l) False (add_dot first acc @ l)"
    by (simp only: b u tk map_char_of_byte)
  also have "\<dots> = parseDNSName_loop ((pre @ enc_label l) @ concat (map enc_label ls) @ 0 # suf)
      (length (pre @ enc_label l)) False (add_dot first acc @ l)"
    by (simp add: el)
  also have "\<dots> = Some (name_finish
      (length (pre @ enc_label l) + length (concat (map enc_label ls)) + 1)
      (join_acc False (add_dot first acc @ l) ls))"
    using Cons.prems by (intro Cons.IH) simp
  finally show ?case by (simp add: el add.assoc)
qed

text \<open>
  Claim C6 as stated fails. The labels of \<open>tv.\<close> are \<open>tv\<close> and the empty label, both
  within 63 bytes and free of NUL; the encoder leaves the empty last label out and the
  decoder gives back \<open>tv\<close>.
\<close>

theorem C6_trailing_dot_counterexample:
  "labels_of ''tv.'' = [''tv'', []] \<and>
   parseDNSName (addDNSName [] ''tv.'') 0 = Some (Returned (True, 4, ''tv''))"
proof -
  have "addDNSName [] ''tv.'' = [2, 0x74, 0x76, 0]"
    by (simp add: addDNSName_def addDNSName_loop.simps find_char_def substr_def
          substr_from_def byte_of_char_def Let_def)
  then show ?thesis by (simp add: name_eval)
qed

text \<open>
  Claim C6, amended. For every name whose labels each have between 1 and 63 bytes and
  no NUL byte, decoding the encoded name from its first byte succeeds, leaves the cursor
  behind the encoding and yields the name.
\<close>

theorem C6_roundtrip:
  assumes "\<forall>l \<in> set (labels_of nm). 1 \<le> length l \<and> length l \<le> 63 \<and> CHR 0x00 \<notin> set l"
  shows "parseDNSName (addDNSName [] nm) 0 =
     Some (Returned (True, length (addDNSName [] nm), nm))"
proof -
  let ?ls = "labels_of nm"
  have enc: "addDNSName [] nm = concat (map enc_label ?ls) @ [0]"
    using assms addDNSName_labels [of nm "[]"] by fastforce
  have "parseDNSName_loop ([] @ concat (map enc_label ?ls) @ 0 # []) (length ([] :: byte list)) True [] =
     Some (name_finish (length ([] :: byte list) + length (concat (map enc_label ?ls)) + 1)
             (join_acc True [] ?ls))"
    using assms by (intro parseDNSName_loop_labels) simp
  moreover have "join_acc True [] ?ls = nm"
    using join_acc_labels [OF labels_of_nonempty, of nm] labels_of_join [of nm] by simp
  moreover have "nm \<noteq> []"
    using assms by auto
  ultimately show ?thesis
    by (simp add: parseDNSName_def enc name_finish_def)
qed

theorem C6_roundtrip_witness:
  "labels_of ''_leboremote._tcp.local'' = [''_leboremote'', ''_tcp'', ''local''] \<and>
   parseDNSName (addDNSName [] ''_leboremote._tcp.local'') 0 =
     Some (Returned (True, 24, ''_leboremote._tcp.local''))"
proof -
  have l: "labels_of ''_leboremote._tcp.local'' = [''_leboremote'', ''_tcp'', ''local'']"
    by simp
  have h: "\<forall>l \<in> set (labels_of ''_leboremote._tcp.local'').
      1 \<le> length l \<and> length l \<le> 63 \<and> CHR 0x00 \<notin> set l"
    unfolding l by simp
  have len: "length (addDNSName [] ''_leboremote._tcp.local'') = 24"
    by (simp add: addDNSName_def addDNSName_loop.simps find_char_def substr_def
          substr_from_def byte_of_char_def Let_def)
  show ?thesis
    using l C6_roundtrip [OF h] by (simp add: len)
qed

section \<open>The response parser\<close>


lemma parse_answers_past_end:
  "parseRecordHeader buf ptr = Some ReadPastEnd \<Longrightarrow>
   parse_answers buf (Suc n) ptr info tgt = Some ReadPastEnd"
  by (simp add: parse_answers.simps)


lemma parseMDNSResponse_short:
  "length buf < 12 \<Longrightarrow> parseMDNSResponse e buf sender s = Some (Returned s)"
  by (simp add: parseMDNSResponse_def)

lemma parseMDNSResponse_query:
  "be16 (buf ! 2) (buf ! 3) AND 0x8000 = 0 \<Longrightarrow>
   parseMDNSResponse e buf sender s = Some (Returned s)"
  unfolding parseMDNSResponse_def Let_def ntohs_load16 by simp

lemma parseMDNSResponse_response:
  "\<not> length buf < 12 \<Longrightarrow> be16 (buf ! 2) (buf ! 3) AND 0x8000 \<noteq> 0 \<Longrightarrow>
   parseMDNSResponse e buf sender s =
     Option.bind (skip_questions buf (unat (be16 (buf ! 4) (buf ! 5))) 12)
       (\<lambda>q. case q of
          ReadPastEnd \<Rightarrow> Some ReadPastEnd
        | Returned ptr \<Rightarrow>
            Option.bind
              (parse_answers buf (unat (be16 (buf ! 6) (buf ! 7))) ptr
                 \<lparr>name = [], ip = sender, txtRecords = []\<rparr> False)
              (\<lambda>a. case a of
                 ReadPastEnd \<Rightarrow> Some ReadPastEnd
               | Returned (tempInfo, isTargetService) \<Rightarrow>
                   if name tempInfo \<noteq> [] \<and> isTargetService
                   then Some (Returned (reconcile tempInfo s))
                   else Some (Returned s)))"
  unfolding parseMDNSResponse_def Let_def ntohs_load16 by simp

lemma skip_questions_0: "skip_questions buf 0 ptr = Some (Returned ptr)"
  by (simp add: skip_questions.simps)


text \<open>
  Claim C2, evaluated on the code. The datagram is a response header announcing one
  answer, followed by the byte \<open>0xC0\<close>. The decoder takes the byte for the first half
  of a compression pointer and reads the second half at index 13, which is the length
  of the datagram: a read outside it.
\<close>

theorem C2_pointer_second_byte_unchecked:
  "length dg_cut_pointer = 13 \<and>
   parseDNSName dg_cut_pointer 12 = Some ReadPastEnd \<and>
   parseMDNSResponse LittleEndian dg_cut_pointer ''192.168.1.7'' impl0 = Some ReadPastEnd"
proof -
  have len: "length dg_cut_pointer = 13" by (simp add: dg_cut_pointer_def)
  have nm: "parseDNSName dg_cut_pointer 12 = Some ReadPastEnd"
    by (simp add: dg_cut_pointer_def name_eval)
  have hd: "be16 (dg_cut_pointer ! 2) (dg_cut_pointer ! 3) = 0x8400"
    "unat (be16 (dg_cut_pointer ! 4) (dg_cut_pointer ! 5)) = 0"
    "unat (be16 (dg_cut_pointer ! 6) (dg_cut_pointer ! 7)) = Suc 0"
    by (simp_all add: dg_cut_pointer_def be16_def)
  have "parseRecordHeader dg_cut_pointer 12 = Some ReadPastEnd"
    by (simp add: parseRecordHeader_def nm)
  then have "parse_answers dg_cut_pointer (Suc 0) 12
      \<lparr>name = [], ip = ''192.168.1.7'', txtRecords = []\<rparr> False = Some ReadPastEnd"
    by (rule parse_answers_past_end)
  then have "parseMDNSResponse LittleEndian dg_cut_pointer ''192.168.1.7'' impl0 =
      Some ReadPastEnd"
    by (simp add: parseMDNSResponse_response len hd skip_questions_0)
  with len nm show ?thesis by simp
qed










section \<open>The query message\<close>











section \<open>Reconciliation\<close>

lemma find_if_None: "find_if P xs = None \<longleftrightarrow> (\<forall>x \<in> set xs. \<not> P x)"
  by (induction xs) auto

lemma find_if_Some:
  "find_if P xs = Some i \<longleftrightarrow> i < length xs \<and> P (xs ! i) \<and> (\<forall>j < i. \<not> P (xs ! j))"
proof (induction xs arbitrary: i)
  case Nil
  then show ?case by simp
next
  case (Cons x xs)
  show ?case
  proof (cases "P x")
    case True
    then show ?thesis by (cases i) auto
  next
    case False
    show ?thesis
    proof (cases i)
      case 0
      with False show ?thesis by auto
    next
      case (Suc k)
      have "(\<forall>j<Suc k. \<not> P ((x # xs) ! j)) \<longleftrightarrow> (\<forall>j<k. \<not> P (xs ! j))"
        using False by (auto simp: less_Suc_eq_0_disj)
      with False Suc Cons.IH [of k] show ?thesis by auto
    qed
  qed
qed

text \<open>
  Claim C4. Reconciling a candidate \<open>cand\<close> into the registry: when no entry has its
  name, the candidate is appended and the callback is called once, with the candidate;
  when \<open>i\<close> is the first entry with its name and the candidate has attributes, entry
  \<open>i\<close> gets the candidate's attributes and address, the registry keeps its length and
  the callback is called once, with the updated entry; when an entry has its name and the
  candidate has no attributes, nothing changes and the callback is not called.
\<close>

theorem C4_reconcile_cases:
  "((\<forall>d \<in> set (discoveredDevices s). name d \<noteq> name cand) \<longrightarrow>
      discoveredDevices (reconcile cand s) = discoveredDevices s @ [cand] \<and>
      callback_calls (reconcile cand s) = callback_calls s @ [cand])
   \<and> (i < length (discoveredDevices s) \<and> name (discoveredDevices s ! i) = name cand \<and>
        (\<forall>j < i. name (discoveredDevices s ! j) \<noteq> name cand) \<and> txtRecords cand \<noteq> [] \<longrightarrow>
        discoveredDevices (reconcile cand s) =
          (discoveredDevices s)
            [i := (discoveredDevices s ! i)\<lparr>txtRecords := txtRecords cand, ip := ip cand\<rparr>] \<and>
        length (discoveredDevices (reconcile cand s)) = length (discoveredDevices s) \<and>
        callback_calls (reconcile cand s) =
          callback_calls s @
            [(discoveredDevices s ! i)\<lparr>txtRecords := txtRecords cand, ip := ip cand\<rparr>])
   \<and> ((\<exists>d \<in> set (discoveredDevices s). name d = name cand) \<and> txtRecords cand = [] \<longrightarrow>
        reconcile cand s = s)"
proof (intro conjI impI)
  assume "\<forall>d \<in> set (discoveredDevices s). name d \<noteq> name cand"
  then have n: "find_if (\<lambda>d. name d = name cand) (discoveredDevices s) = None"
    by (simp add: find_if_None)
  show "discoveredDevices (reconcile cand s) = discoveredDevices s @ [cand]"
    and "callback_calls (reconcile cand s) = callback_calls s @ [cand]"
    using n by (simp_all add: reconcile_def)
next
  assume a: "i < length (discoveredDevices s) \<and> name (discoveredDevices s ! i) = name cand \<and>
        (\<forall>j < i. name (discoveredDevices s ! j) \<noteq> name cand) \<and> txtRecords cand \<noteq> []"
  then have f: "find_if (\<lambda>d. name d = name cand) (discoveredDevices s) = Some i"
    by (simp add: find_if_Some)
  show "discoveredDevices (reconcile cand s) =
          (discoveredDevices s)
            [i := (discoveredDevices s ! i)\<lparr>txtRecords := txtRecords cand, ip := ip cand\<rparr>]"
    and "length (discoveredDevices (reconcile cand s)) = length (discoveredDevices s)"
    and "callback_calls (reconcile cand s) =
          callback_calls s @
            [(discoveredDevices s ! i)\<lparr>txtRecords := txtRecords cand, ip := ip cand\<rparr>]"
    using f a by (simp_all add: reconcile_def Let_def)
next
  assume a: "(\<exists>d \<in> set (discoveredDevices s). name d = name cand) \<and> txtRecords cand = []"
  then obtain k where "find_if (\<lambda>d. name d = name cand) (discoveredDevices s) = Some k"
    using find_if_None [of "\<lambda>d. name d = name cand" "discoveredDevices s"] by fastforce
  then show "reconcile cand s = s"
    using a by (simp add: reconcile_def)
qed

theorem C4_reconcile_cases_witness:
  "discoveredDevices (reconcile dev1 impl0) = [dev1] \<and>
   callback_calls (reconcile dev1 impl0) = [dev1] \<and>
   discoveredDevices (reconcile (dev1\<lparr>ip := ''192.168.1.8'', txtRecords := [(''a'', ''42'')]\<rparr>)
       (impl0\<lparr>discoveredDevices := [dev1]\<rparr>)) =
     [dev1\<lparr>txtRecords := [(''a'', ''42'')], ip := ''192.168.1.8''\<rparr>] \<and>
   callback_calls (reconcile (dev1\<lparr>ip := ''192.168.1.8'', txtRecords := [(''a'', ''42'')]\<rparr>)
       (impl0\<lparr>discoveredDevices := [dev1]\<rparr>)) =
     [dev1\<lparr>txtRecords := [(''a'', ''42'')], ip := ''192.168.1.8''\<rparr>] \<and>
   reconcile (dev1\<lparr>ip := ''192.168.1.8'', txtRecords := []\<rparr>)
       (impl0\<lparr>discoveredDevices := [dev1]\<rparr>) = impl0\<lparr>discoveredDevices := [dev1]\<rparr>"
  using C4_reconcile_cases [of impl0 dev1 0]
    C4_reconcile_cases [of "impl0\<lparr>discoveredDevices := [dev1]\<rparr>"
       "dev1\<lparr>ip := ''192.168.1.8'', txtRecords := [(''a'', ''42'')]\<rparr>" 0]
    C4_reconcile_cases [of "impl0\<lparr>discoveredDevices := [dev1]\<rparr>"
       "dev1\<lparr>ip := ''192.168.1.8'', txtRecords := []\<rparr>" 0]
  by (simp add: impl0_def dev1_def)

section \<open>Starting and stopping the discovery\<close>

text \<open>
  Claim C10. A call of \<^verbatim>\<open>startDiscovery\<close> on an object that is running returns
  false and leaves every member and the world as they were: no socket is created, no
  query is sent, no thread is started, and the running flag and the registry are the
  same.
\<close>

theorem C10_start_while_running:
  "running s \<Longrightarrow> startDiscovery e os serviceType s = (False, s)"
  by (simp add: startDiscovery_def)

theorem C10_start_while_running_witness:
  "running impl_running \<and>
   startDiscovery LittleEndian os_ok ''_leboremote._tcp.local'' impl_running =
     (False, impl_running)"
proof -
  have r: "running impl_running" by (simp add: impl_running_def)
  show ?thesis
    using r C10_start_while_running [OF r, of LittleEndian os_ok "''_leboremote._tcp.local''"]
    by simp
qed

lemma stopDiscovery_registry:
  "discoveredDevices (stopDiscovery s) = discoveredDevices s"
  by (simp add: stopDiscovery_def closesocket_def Let_def)

text \<open>
  Claim C5, evaluated on the code. \<^verbatim>\<open>stopDiscovery\<close> on a running object that has
  found one device clears the running flag and closes the socket, and the registry
  still holds the device; a start that follows finds it there.
\<close>

theorem C5_stop_leaves_registry:
  "running impl_running \<and>
   \<not> running (stopDiscovery impl_running) \<and>
   discoveredDevices (stopDiscovery impl_running) = [dev1] \<and>
   fst (startDiscovery LittleEndian os_ok ''_leboremote._tcp.local''
          (stopDiscovery impl_running)) \<and>
   discoveredDevices
     (snd (startDiscovery LittleEndian os_ok ''_leboremote._tcp.local''
             (stopDiscovery impl_running))) = [dev1]"
  by (simp add: stopDiscovery_def startDiscovery_def sendQuery_def closesocket_def
        impl_running_def os_ok_def INVALID_SOCKET_def Let_def)

end
